theory Spec2Isabelle
  imports Main "HOL-Library.Word"
begin

section \<open>File-backed torrent storage (storage/file.go, storage/file\_piece.go)\<close>

text \<open>
  The storage layer maps one logical byte stream onto an ordered list of files.
  Offsets and lengths are \<open>int64\<close> in the source; the model uses \<open>nat\<close>, so it covers
  the non-negative values, and it subtracts only where the source has compared first.
  Locks are left out: the model is sequential.
\<close>

subsection \<open>Errors and the operating system\<close>

type_synonym byte = "8 word"
type_synonym inode = nat

datatype error =
    EOF                 \<comment> \<open>\<open>io.EOF\<close>\<close>
  | ErrUnexpectedEOF    \<comment> \<open>\<open>io.ErrUnexpectedEOF\<close>\<close>
  | IOError             \<comment> \<open>any other error of the operating system or of the completion store\<close>
  | ErrNotExist         \<comment> \<open>the path does not exist and the flags do not ask to create it\<close>
  | ErrWriteAtInAppendMode
      \<comment> \<open>\<open>os: invalid use of WriteAt on file opened with O_APPEND\<close>\<close>
  | SliceBounds         \<comment> \<open>the run-time panic of a slice expression out of range\<close>

datatype open_flag = O_RDWR | O_APPEND | O_CREATE

datatype syscall =
    SysOpen string
  | SysCreate string
  | SysReadAt string nat nat
  | SysWriteAt string nat "byte list"

text \<open>
  The disk, as the package \<open>os\<close> shows it to the program. A directory entry binds a
  path to an inode and an open file stays bound to its inode, whatever happens to the
  directory entry afterwards. \<open>deny_open\<close> holds the paths that cannot be opened
  or created, \<open>deny_io\<close> the paths whose open files fail every read, write and stat.
  \<open>trace\<close> records, in order, every file opened or created and every positional
  read and write the program calls on an open file. Directories are not modelled (the
  source ignores the result of \<open>os.MkdirAll\<close>), and neither is a stat that fails for
  another reason than a missing path.

  An open file remembers whether it was opened with \<open>O_APPEND\<close>. On such a file
  \<open>WriteAt\<close> refuses to write: it returns 0 and an error before anything reaches the
  disk, as \<open>os.File.WriteAt\<close> does. A handle of the torrent store keeps the open file
  (its inode and its append mode) and the path.
\<close>

record filesystem =
  names :: "string \<rightharpoonup> inode"
  contents :: "inode \<Rightarrow> byte list"
  fresh :: inode
  deny_open :: "string set"
  deny_io :: "string set"
  trace :: "syscall list"

record fileTorrentHandle =
  ino :: inode
  appendMode :: bool
  path :: string

definition emit :: "syscall \<Rightarrow> filesystem \<Rightarrow> filesystem" where
  "emit c d = d\<lparr>trace := trace d @ [c]\<rparr>"

definition os_IsNotExist :: "filesystem \<Rightarrow> string \<Rightarrow> bool" where
  "os_IsNotExist d name = (names d name = None)"

definition allocate :: "string \<Rightarrow> filesystem \<Rightarrow> filesystem" where
  "allocate name d =
     d\<lparr>names := (names d)(name \<mapsto> fresh d),
       contents := (contents d)(fresh d := []),
       fresh := Suc (fresh d)\<rparr>"

definition os_OpenFile ::
  "filesystem \<Rightarrow> string \<Rightarrow> open_flag list \<Rightarrow> (error + inode \<times> bool) \<times> filesystem" where
  "os_OpenFile d name flags =
     (if name \<in> deny_open d then (Inl IOError, d)
      else case names d name of
             Some i \<Rightarrow> (Inr (i, O_APPEND \<in> set flags), emit (SysOpen name) d)
           | None \<Rightarrow>
               if O_CREATE \<in> set flags
               then (Inr (fresh d, O_APPEND \<in> set flags), emit (SysOpen name) (allocate name d))
               else (Inl ErrNotExist, d))"

definition os_Create :: "filesystem \<Rightarrow> string \<Rightarrow> (error + inode) \<times> filesystem" where
  "os_Create d name =
     (if name \<in> deny_open d then (Inl IOError, d)
      else case names d name of
             Some i \<Rightarrow> (Inr i, emit (SysCreate name) (d\<lparr>contents := (contents d)(i := [])\<rparr>))
           | None \<Rightarrow> (Inr (fresh d), emit (SysCreate name) (allocate name d)))"


definition file_Stat :: "filesystem \<Rightarrow> fileTorrentHandle \<Rightarrow> error + nat" where
  "file_Stat d h =
     (if path h \<in> deny_io d then Inl IOError else Inr (length (contents d (ino h))))"

definition file_ReadAt ::
  "filesystem \<Rightarrow> fileTorrentHandle \<Rightarrow> nat \<Rightarrow> nat \<Rightarrow> (byte list \<times> error option) \<times> filesystem" where
  "file_ReadAt d h want off =
     (let d' = emit (SysReadAt (path h) off want) d in
      if path h \<in> deny_io d then (([], Some IOError), d')
      else let bs = take want (drop off (contents d (ino h)))
           in ((bs, if length bs < want then Some EOF else None), d'))"

definition pwrite :: "byte list \<Rightarrow> nat \<Rightarrow> byte list \<Rightarrow> byte list" where
  "pwrite old off b =
     (if b = [] then old
      else take off old @ replicate (off - length old) 0 @ b @ drop (off + length b) old)"

definition file_WriteAt ::
  "filesystem \<Rightarrow> fileTorrentHandle \<Rightarrow> byte list \<Rightarrow> nat \<Rightarrow> (nat \<times> error option) \<times> filesystem" where
  "file_WriteAt d h b off =
     (let d' = emit (SysWriteAt (path h) off b) d in
      if appendMode h then ((0, Some ErrWriteAtInAppendMode), d')
      else if path h \<in> deny_io d then ((0, Some IOError), d')
      else ((length b, None),
            d'\<lparr>contents := (contents d)(ino h := pwrite (contents d (ino h)) off b)\<rparr>))"

subsection \<open>Metadata and the completion store\<close>

type_synonym Hash = "byte list"

record FileInfo =
  Path :: "string list"
  Length :: nat

text \<open>
  Modelled from the spec: the package \<open>metainfo\<close> is not under src/. \<open>UpvertedFiles\<close>
  is the ordered file-entry list the walks range over.
\<close>

record Info =
  Name :: string
  UpvertedFiles :: "FileInfo list"
  PieceLength :: nat

text \<open>
  Modelled from the spec: a piece descriptor with its index and its derived offset and
  length in the torrent's byte stream.
\<close>

record Piece =
  Index :: nat
  Offset :: nat
  PLength :: nat

record PieceKey =
  InfoHash :: Hash
  KIndex :: nat

record Completion =
  Complete :: bool
  Ok :: bool

text \<open>
  Modelled from the spec: the completion store (\<open>PieceCompletion\<close>) is an interface whose
  implementations are not under src/. It keeps one boolean per piece key; a key never
  recorded reads as not ok. \<open>failing\<close> makes every call return an error, and
  \<open>issued\<close> lists the set operations in the order they were issued.
\<close>

record PieceCompletion =
  recs :: "PieceKey \<rightharpoonup> bool"
  failing :: bool
  issued :: "(PieceKey \<times> bool) list"

definition pc_Get :: "PieceCompletion \<Rightarrow> PieceKey \<Rightarrow> error + Completion" where
  "pc_Get pc k =
     (if failing pc then Inl IOError
      else case recs pc k of
             None \<Rightarrow> Inr \<lparr>Complete = False, Ok = False\<rparr>
           | Some b \<Rightarrow> Inr \<lparr>Complete = b, Ok = True\<rparr>)"

definition pc_Set :: "PieceCompletion \<Rightarrow> PieceKey \<Rightarrow> bool \<Rightarrow> error option \<times> PieceCompletion" where
  "pc_Set pc k b =
     (let pc' = pc\<lparr>issued := issued pc @ [(k, b)]\<rparr> in
      if failing pc then (Some IOError, pc')
      else (None, pc'\<lparr>recs := (recs pc)(k \<mapsto> b)\<rparr>))"

subsection \<open>The storage factory and the torrent store\<close>

record fileClientImpl =
  baseDir :: string
  pathMaker :: "string \<Rightarrow> Info \<Rightarrow> Hash \<Rightarrow> string"
  pc :: PieceCompletion

record fileTorrentImpl =
  dir :: string
  info :: Info
  infoHash :: Hash
  completion :: PieceCompletion
  handles :: "string \<rightharpoonup> fileTorrentHandle"

definition defaultPathMaker :: "string \<Rightarrow> Info \<Rightarrow> Hash \<Rightarrow> string" where
  "defaultPathMaker base i ih = base"

text \<open>
  \<open>filepath.Join\<close> drops empty elements and joins the rest with the separator; the
  clean-up of the joined path (\<open>filepath.Clean\<close>) is left out.
\<close>

fun join_sep :: "string list \<Rightarrow> string" where
  "join_sep [] = []"
| "join_sep [x] = x"
| "join_sep (x # y # ys) = x @ ''/'' @ join_sep (y # ys)"

definition filepath_Join :: "string list \<Rightarrow> string" where
  "filepath_Join elems = join_sep (filter (\<lambda>e. e \<noteq> []) elems)"

definition fileInfoName :: "fileTorrentImpl \<Rightarrow> FileInfo \<Rightarrow> string" where
  "fileInfoName fts fi = filepath_Join ([dir fts, Name (info fts)] @ Path fi)"

type_synonym 'a io = "'a \<times> fileTorrentImpl \<times> filesystem"

definition OpenFile ::
  "fileTorrentImpl \<Rightarrow> FileInfo \<Rightarrow> bool \<Rightarrow> filesystem \<Rightarrow> (error + fileTorrentHandle) io" where
  "OpenFile fs fi creatable d =
     (let filename = fileInfoName fs fi in
      case handles fs filename of
        Some h \<Rightarrow> (Inr h, fs, d)
      | None \<Rightarrow>
          if os_IsNotExist d filename \<and> \<not> creatable then (Inl EOF, fs, d)
          else (case os_OpenFile d filename [O_APPEND, O_RDWR, O_CREATE] of
                  (Inl e, d') \<Rightarrow> (Inl e, fs, d')
                | (Inr (i, a), d') \<Rightarrow>
                    let h = \<lparr>ino = i, appendMode = a, path = filename\<rparr>
                    in (Inr h, fs\<lparr>handles := (handles fs)(filename \<mapsto> h)\<rparr>, d')))"

fun CreateNativeZeroLengthFiles_loop ::
  "string \<Rightarrow> string \<Rightarrow> FileInfo list \<Rightarrow> filesystem \<Rightarrow> error option \<times> filesystem" where
  "CreateNativeZeroLengthFiles_loop dr nm [] d = (None, d)"
| "CreateNativeZeroLengthFiles_loop dr nm (fi # fis) d =
     (if Length fi \<noteq> 0 then CreateNativeZeroLengthFiles_loop dr nm fis d
      else case os_Create d (filepath_Join ([dr, nm] @ Path fi)) of
             (Inl e, d') \<Rightarrow> (Some e, d')
           | (Inr i, d') \<Rightarrow> CreateNativeZeroLengthFiles_loop dr nm fis d')"

definition CreateNativeZeroLengthFiles ::
  "Info \<Rightarrow> string \<Rightarrow> filesystem \<Rightarrow> error option \<times> filesystem" where
  "CreateNativeZeroLengthFiles i dr d =
     CreateNativeZeroLengthFiles_loop dr (Name i) (UpvertedFiles i) d"

definition OpenTorrent ::
  "fileClientImpl \<Rightarrow> Info \<Rightarrow> Hash \<Rightarrow> filesystem \<Rightarrow> (error + fileTorrentImpl) \<times> filesystem" where
  "OpenTorrent cl i ih d =
     (let dr = pathMaker cl (baseDir cl) i ih in
      case CreateNativeZeroLengthFiles i dr d of
        (Some e, d') \<Rightarrow> (Inl e, d')
      | (None, d') \<Rightarrow>
          (Inr \<lparr>dir = dr, info = i, infoHash = ih, completion = pc cl, handles = Map.empty\<rparr>, d'))"

subsection \<open>The extent translator\<close>

text \<open>
  A read buffer is modelled by its length \<open>want\<close>; the bytes stored into it are
  returned, so the count \<open>n\<close> of the source is the length of the returned list.
\<close>

function readFileAt_loop ::
  "fileTorrentHandle \<Rightarrow> FileInfo \<Rightarrow> nat \<Rightarrow> nat \<Rightarrow> byte list \<Rightarrow> filesystem \<Rightarrow>
     (byte list \<times> error option) \<times> filesystem" where
  "readFileAt_loop h fi want off acc d =
     (if off < Length fi \<and> want \<noteq> 0 then
        (case file_ReadAt d h want off of
           ((bs, err1), d') \<Rightarrow>
             if length bs = 0 then ((acc, err1), d')
             else readFileAt_loop h fi (want - length bs) (off + length bs) (acc @ bs) d')
      else ((acc, None), d))"
  by pat_completeness auto
termination
  by (relation "measure (\<lambda>(h, fi, want, off, acc, d). want)") auto

definition readFileAt ::
  "fileTorrentImpl \<Rightarrow> FileInfo \<Rightarrow> nat \<Rightarrow> nat \<Rightarrow> filesystem \<Rightarrow> (byte list \<times> error option) io" where
  "readFileAt fs fi want off d =
     (case OpenFile fs fi False d of
        (Inl e, fs1, d1) \<Rightarrow> (([], Some e), fs1, d1)
      | (Inr h, fs1, d1) \<Rightarrow>
          if Length fi < off then (([], Some SliceBounds), fs1, d1)
          else let want' = (if want > Length fi - off then Length fi - off else want)
               in (case readFileAt_loop h fi want' off [] d1 of (r, d2) \<Rightarrow> (r, fs1, d2)))"

function ReadAt_loop ::
  "fileTorrentImpl \<Rightarrow> FileInfo list \<Rightarrow> nat \<Rightarrow> nat \<Rightarrow> byte list \<Rightarrow> filesystem \<Rightarrow>
     (byte list \<times> error option) io" where
  "ReadAt_loop fs [] want off acc d = ((acc, Some EOF), fs, d)"
| "ReadAt_loop fs (fi # fis) want off acc d =
     (if off < Length fi then
        (case readFileAt fs fi want off d of
           ((bs, err1), fs1, d1) \<Rightarrow>
             if want - length bs = 0 then ((acc @ bs, None), fs1, d1)
             else if length bs \<noteq> 0 then
               ReadAt_loop fs1 (fi # fis) (want - length bs) (off + length bs) (acc @ bs) d1
             else ((acc @ bs, if err1 = Some EOF then Some ErrUnexpectedEOF else err1), fs1, d1))
      else ReadAt_loop fs fis want (off - Length fi) acc d)"
  by pat_completeness auto
termination
  by (relation "measures [\<lambda>(fs, fis, want, off, acc, d). length fis,
                          \<lambda>(fs, fis, want, off, acc, d). Length (hd fis) - off]")
     (auto simp flip: length_greater_0_conv)

definition ReadAt :: "fileTorrentImpl \<Rightarrow> nat \<Rightarrow> nat \<Rightarrow> filesystem \<Rightarrow> (byte list \<times> error option) io" where
  "ReadAt fs want off d = ReadAt_loop fs (UpvertedFiles (info fs)) want off [] d"

fun WriteAt_loop ::
  "fileTorrentImpl \<Rightarrow> FileInfo list \<Rightarrow> byte list \<Rightarrow> nat \<Rightarrow> nat \<Rightarrow> filesystem \<Rightarrow>
     (nat \<times> error option) io" where
  "WriteAt_loop fs [] p off n d = ((n, None), fs, d)"
| "WriteAt_loop fs (fi # fis) p off n d =
     (if off \<ge> Length fi then WriteAt_loop fs fis p (off - Length fi) n d
      else let n1 = (if length p > Length fi - off then Length fi - off else length p) in
        case OpenFile fs fi True d of
          (Inl e, fs1, d1) \<Rightarrow> ((n, Some e), fs1, d1)
        | (Inr h, fs1, d1) \<Rightarrow>
            (case file_WriteAt d1 h (take n1 p) off of
               ((n1', Some e), d2) \<Rightarrow> ((n, Some e), fs1, d2)
             | ((n1', None), d2) \<Rightarrow>
                 if length (drop n1' p) = 0 then ((n + n1', None), fs1, d2)
                 else WriteAt_loop fs1 fis (drop n1' p) 0 (n + n1') d2))"

definition WriteAt :: "fileTorrentImpl \<Rightarrow> byte list \<Rightarrow> nat \<Rightarrow> filesystem \<Rightarrow> (nat \<times> error option) io" where
  "WriteAt fs p off d = WriteAt_loop fs (UpvertedFiles (info fs)) p off 0 d"

subsection \<open>The piece view\<close>

text \<open>
  Modelled from the spec: the bounded writer and reader of a piece
  (\<open>missinggo.NewSectionWriter\<close>, \<open>io.NewSectionReader\<close>) restrict the extent
  translator to the piece's range of the byte stream.
\<close>

definition piece_WriteAt ::
  "fileTorrentImpl \<Rightarrow> Piece \<Rightarrow> byte list \<Rightarrow> nat \<Rightarrow> filesystem \<Rightarrow> (nat \<times> error option) io" where
  "piece_WriteAt fs p b off d =
     (if off \<ge> PLength p then ((0, Some EOF), fs, d)
      else WriteAt fs (if off + length b > PLength p then take (PLength p - off) b else b)
             (Offset p + off) d)"

definition piece_ReadAt ::
  "fileTorrentImpl \<Rightarrow> Piece \<Rightarrow> nat \<Rightarrow> nat \<Rightarrow> filesystem \<Rightarrow> (byte list \<times> error option) io" where
  "piece_ReadAt fs p want off d =
     (if off \<ge> PLength p then (([], Some EOF), fs, d)
      else if want > PLength p - off then
        (case ReadAt fs (PLength p - off) (Offset p + off) d of
           ((bs, err), r) \<Rightarrow> ((bs, if err = None then Some EOF else err), r))
      else ReadAt fs want (Offset p + off) d)"

definition pieceKey :: "fileTorrentImpl \<Rightarrow> Piece \<Rightarrow> PieceKey" where
  "pieceKey fs p = \<lparr>InfoHash = infoHash fs, KIndex = Index p\<rparr>"

text \<open>
  The loop of \<open>Completion\<close> over the file entries the piece requires. That list is
  computed by \<open>extentCompleteRequiredLengths\<close>, which is not under src/, so it is the
  parameter \<open>req\<close> here: each entry carries the path of a file and the length that file
  must have.
\<close>

fun Completion_loop ::
  "fileTorrentImpl \<Rightarrow> FileInfo list \<Rightarrow> Completion \<Rightarrow> filesystem \<Rightarrow> Completion io" where
  "Completion_loop fs [] c d = (c, fs, d)"
| "Completion_loop fs (fi # fis) c d =
     (case OpenFile fs fi False d of
        (Inl e, fs1, d1) \<Rightarrow> (c\<lparr>Complete := False\<rparr>, fs1, d1)
      | (Inr h, fs1, d1) \<Rightarrow>
          (case file_Stat d1 h of
             Inl e \<Rightarrow> (c\<lparr>Complete := False\<rparr>, fs1, d1)
           | Inr s \<Rightarrow>
               if s < Length fi then (c\<lparr>Complete := False\<rparr>, fs1, d1)
               else Completion_loop fs1 fis c d1))"

definition Completion ::
  "fileTorrentImpl \<Rightarrow> Piece \<Rightarrow> FileInfo list \<Rightarrow> filesystem \<Rightarrow> Completion io" where
  "Completion fs p req d =
     (case pc_Get (completion fs) (pieceKey fs p) of
        Inl e \<Rightarrow> (\<lparr>Complete = False, Ok = False\<rparr>, fs, d)
      | Inr c \<Rightarrow>
          if \<not> Ok c then (\<lparr>Complete = False, Ok = False\<rparr>, fs, d)
          else (case Completion_loop fs req c d of
                  (c', fs', d') \<Rightarrow>
                    if \<not> Complete c'
                    then (c', fs'\<lparr>completion := snd (pc_Set (completion fs') (pieceKey fs' p) False)\<rparr>, d')
                    else (c', fs', d')))"

definition MarkComplete :: "fileTorrentImpl \<Rightarrow> Piece \<Rightarrow> error option \<times> fileTorrentImpl" where
  "MarkComplete fs p =
     (case pc_Set (completion fs) (pieceKey fs p) True of
        (e, st) \<Rightarrow> (e, fs\<lparr>completion := st\<rparr>))"

definition MarkNotComplete :: "fileTorrentImpl \<Rightarrow> Piece \<Rightarrow> error option \<times> fileTorrentImpl" where
  "MarkNotComplete fs p =
     (case pc_Set (completion fs) (pieceKey fs p) False of
        (e, st) \<Rightarrow> (e, fs\<lparr>completion := st\<rparr>))"

subsection \<open>Notions used in the statements, and example states\<close>

text \<open>The paths of the zero-length entries, in order, and a path bound to an empty file.\<close>

definition zero_names :: "string \<Rightarrow> string \<Rightarrow> FileInfo list \<Rightarrow> string list" where
  "zero_names dr nm fis =
     map (\<lambda>fi. filepath_Join ([dr, nm] @ Path fi)) (filter (\<lambda>fi. Length fi = 0) fis)"

definition ex_disk :: filesystem where
  "ex_disk = \<lparr>names = Map.empty, contents = (\<lambda>_. []), fresh = 0,
               deny_open = {}, deny_io = {}, trace = []\<rparr>"

definition ex_store :: PieceCompletion where
  "ex_store = \<lparr>recs = Map.empty, failing = False, issued = []\<rparr>"

definition ex_info :: Info where
  "ex_info = \<lparr>Name = ''t'',
               UpvertedFiles = [\<lparr>Path = [''a''], Length = 2\<rparr>,
                                \<lparr>Path = [''b''], Length = 3\<rparr>],
               PieceLength = 4\<rparr>"

definition ex_torrent :: fileTorrentImpl where
  "ex_torrent = \<lparr>dir = ''d'', info = ex_info, infoHash = [], completion = ex_store,
                  handles = Map.empty\<rparr>"

definition ex_zero_info :: Info where
  "ex_zero_info = \<lparr>Name = ''t'',
                    UpvertedFiles = [\<lparr>Path = [''z1''], Length = 0\<rparr>,
                                     \<lparr>Path = [''a''], Length = 2\<rparr>,
                                     \<lparr>Path = [''z2''], Length = 0\<rparr>,
                                     \<lparr>Path = [''z3''], Length = 0\<rparr>],
                    PieceLength = 4\<rparr>"

definition created :: "filesystem \<Rightarrow> string \<Rightarrow> bool" where
  "created d name = (case names d name of None \<Rightarrow> False | Some i \<Rightarrow> contents d i = [])"

text \<open>
  How often a path was opened, and the relation between the state before and after an
  operation of the torrent store that says the handle cache is respected: a path cached
  before keeps its handle and is not opened again; a path not cached before is opened
  once if it is cached afterwards, and not at all otherwise.
\<close>

definition opens :: "filesystem \<Rightarrow> string \<Rightarrow> nat" where
  "opens d name = count_list (trace d) (SysOpen name)"

definition cache_step ::
  "fileTorrentImpl \<Rightarrow> filesystem \<Rightarrow> fileTorrentImpl \<Rightarrow> filesystem \<Rightarrow> bool" where
  "cache_step fs d fs' d' =
     (\<forall>q. case handles fs q of
            Some h \<Rightarrow> handles fs' q = Some h \<and> opens d' q = opens d q
          | None \<Rightarrow> opens d' q = opens d q + (if handles fs' q = None then 0 else 1))"

text \<open>
  A disk on which no call fails; a handle cache whose handles are filed under their own
  path (\<open>OpenFile\<close> stores every handle under the name it opened); the total length of
  the torrent; the calls issued between two states of the disk, and the reads and writes among them.
\<close>

definition healthy :: "filesystem \<Rightarrow> bool" where
  "healthy d = (deny_open d = {} \<and> deny_io d = {})"

definition cache_ok :: "fileTorrentImpl \<Rightarrow> bool" where
  "cache_ok fs = (\<forall>q. case handles fs q of None \<Rightarrow> True | Some h \<Rightarrow> path h = q)"

definition total_length :: "FileInfo list \<Rightarrow> nat" where
  "total_length fis = sum_list (map Length fis)"

definition TotalLength :: "Info \<Rightarrow> nat" where
  "TotalLength i = total_length (UpvertedFiles i)"

definition since :: "filesystem \<Rightarrow> filesystem \<Rightarrow> syscall list" where
  "since d d' = drop (length (trace d)) (trace d')"

fun is_write :: "syscall \<Rightarrow> bool" where
  "is_write (SysWriteAt q off b) = True"
| "is_write _ = False"

fun is_read :: "syscall \<Rightarrow> bool" where
  "is_read (SysReadAt q off w) = True"
| "is_read _ = False"

text \<open>
  A positional read or write stays inside the declared length of a file entry of that path.
\<close>

fun clamped :: "fileTorrentImpl \<Rightarrow> FileInfo list \<Rightarrow> syscall \<Rightarrow> bool" where
  "clamped fs fis (SysReadAt q off w) =
     list_ex (\<lambda>fi. fileInfoName fs fi = q \<and> off + w \<le> Length fi) fis"
| "clamped fs fis (SysWriteAt q off b) =
     list_ex (\<lambda>fi. fileInfoName fs fi = q \<and> off + length b \<le> Length fi) fis"
| "clamped fs fis _ = True"

text \<open>A disk that holds the second file of the example torrent, but not the first.\<close>

definition ex_disk_only_b :: filesystem where
  "ex_disk_only_b = ex_disk\<lparr>names := [''d/t/b'' \<mapsto> 0], contents := (\<lambda>_. [])(0 := [7, 8, 9]),
                             fresh := 1\<rparr>"

text \<open>
  Every handle in the cache is in append mode. \<open>OpenFile\<close> opens every file with
  \<open>O_APPEND\<close>, so this holds of a store from \<open>OpenTorrent\<close> on.
\<close>

definition append_cache :: "fileTorrentImpl \<Rightarrow> bool" where
  "append_cache fs = (\<forall>q. case handles fs q of None \<Rightarrow> True | Some h \<Rightarrow> appendMode h)"

text \<open>The first piece of the example torrent.\<close>

definition ex_piece :: Piece where
  "ex_piece = \<lparr>Index = 0, Offset = 0, PLength = 4\<rparr>"

text \<open>
  What the completion check asks of a required entry: if its path is cached, the file behind
  the cached handle can be stat-ed and is long enough; otherwise the path exists on disk, can
  be opened and stat-ed, and the file is long enough.
\<close>

definition sized :: "fileTorrentImpl \<Rightarrow> filesystem \<Rightarrow> FileInfo \<Rightarrow> bool" where
  "sized fs d fi =
     (case handles fs (fileInfoName fs fi) of
        Some h \<Rightarrow> path h \<notin> deny_io d \<and> Length fi \<le> length (contents d (ino h))
      | None \<Rightarrow>
          (case names d (fileInfoName fs fi) of
             None \<Rightarrow> False
           | Some i \<Rightarrow> fileInfoName fs fi \<notin> deny_open d \<and> fileInfoName fs fi \<notin> deny_io d
                       \<and> Length fi \<le> length (contents d i)))"







section \<open>Properties\<close>

subsection \<open>The operating system calls\<close>

lemma emit_simps [simp]:
  "names (emit c d) = names d" "contents (emit c d) = contents d" "fresh (emit c d) = fresh d"
  "deny_open (emit c d) = deny_open d" "deny_io (emit c d) = deny_io d"
  "trace (emit c d) = trace d @ [c]"
  by (simp_all add: emit_def)

lemma allocate_simps [simp]:
  "names (allocate name d) = (names d)(name \<mapsto> fresh d)"
  "contents (allocate name d) = (contents d)(fresh d := [])"
  "fresh (allocate name d) = Suc (fresh d)"
  "deny_open (allocate name d) = deny_open d" "deny_io (allocate name d) = deny_io d"
  "trace (allocate name d) = trace d"
  by (simp_all add: allocate_def)

lemma opens_emit: "opens (emit c d) q = opens d q + (if c = SysOpen q then 1 else 0)"
  by (simp add: opens_def)

lemma opens_allocate [simp]: "opens (allocate name d) q = opens d q"
  by (simp add: opens_def)

lemma opens_contents [simp]: "opens (d\<lparr>contents := c\<rparr>) q = opens d q"
  by (simp add: opens_def)

lemma file_ReadAt_state: "snd (file_ReadAt d h want off) = emit (SysReadAt (path h) off want) d"
  by (simp add: file_ReadAt_def Let_def)

lemma file_ReadAt_denied:
  "path h \<in> deny_io d \<Longrightarrow> fst (file_ReadAt d h want off) = ([], Some IOError)"
  by (simp add: file_ReadAt_def Let_def)

lemma file_ReadAt_ok:
  "path h \<notin> deny_io d \<Longrightarrow>
     fst (file_ReadAt d h want off) =
       (take want (drop off (contents d (ino h))),
        if length (take want (drop off (contents d (ino h)))) < want then Some EOF else None)"
  by (simp add: file_ReadAt_def Let_def)

lemma file_WriteAt_append:
  "appendMode h \<Longrightarrow>
     file_WriteAt d h b off =
       ((0, Some ErrWriteAtInAppendMode), emit (SysWriteAt (path h) off b) d)"
  by (simp add: file_WriteAt_def Let_def)

lemma file_WriteAt_denied:
  "\<not> appendMode h \<Longrightarrow> path h \<in> deny_io d \<Longrightarrow>
     file_WriteAt d h b off = ((0, Some IOError), emit (SysWriteAt (path h) off b) d)"
  by (simp add: file_WriteAt_def Let_def)

lemma file_WriteAt_ok:
  "\<not> appendMode h \<Longrightarrow> path h \<notin> deny_io d \<Longrightarrow>
     file_WriteAt d h b off =
       ((length b, None),
        (emit (SysWriteAt (path h) off b) d)
          \<lparr>contents := (contents d)(ino h := pwrite (contents d (ino h)) off b)\<rparr>)"
  by (simp add: file_WriteAt_def Let_def)

subsection \<open>Opening a file through the handle cache\<close>

lemma OpenFile_cached:
  "handles fs (fileInfoName fs fi) = Some h \<Longrightarrow> OpenFile fs fi c d = (Inr h, fs, d)"
  by (simp add: OpenFile_def)

lemma OpenFile_missing:
  "handles fs (fileInfoName fs fi) = None \<Longrightarrow> names d (fileInfoName fs fi) = None \<Longrightarrow>
     OpenFile fs fi False d = (Inl EOF, fs, d)"
  by (simp add: OpenFile_def os_IsNotExist_def)

lemma OpenFile_denied:
  "handles fs (fileInfoName fs fi) = None \<Longrightarrow> fileInfoName fs fi \<in> deny_open d \<Longrightarrow>
   names d (fileInfoName fs fi) \<noteq> None \<or> c \<Longrightarrow>
     OpenFile fs fi c d = (Inl IOError, fs, d)"
  by (auto simp: OpenFile_def os_IsNotExist_def os_OpenFile_def)

lemma OpenFile_existing:
  "handles fs (fileInfoName fs fi) = None \<Longrightarrow> names d (fileInfoName fs fi) = Some i \<Longrightarrow>
   fileInfoName fs fi \<notin> deny_open d \<Longrightarrow>
     OpenFile fs fi c d =
       (Inr \<lparr>ino = i, appendMode = True, path = fileInfoName fs fi\<rparr>,
        fs\<lparr>handles := (handles fs)(fileInfoName fs fi \<mapsto> \<lparr>ino = i, appendMode = True, path = fileInfoName fs fi\<rparr>)\<rparr>,
        emit (SysOpen (fileInfoName fs fi)) d)"
  by (simp add: OpenFile_def os_IsNotExist_def os_OpenFile_def Let_def)

lemma OpenFile_create:
  "handles fs (fileInfoName fs fi) = None \<Longrightarrow> names d (fileInfoName fs fi) = None \<Longrightarrow>
   fileInfoName fs fi \<notin> deny_open d \<Longrightarrow>
     OpenFile fs fi True d =
       (Inr \<lparr>ino = fresh d, appendMode = True, path = fileInfoName fs fi\<rparr>,
        fs\<lparr>handles := (handles fs)(fileInfoName fs fi \<mapsto> \<lparr>ino = fresh d, appendMode = True, path = fileInfoName fs fi\<rparr>)\<rparr>,
        emit (SysOpen (fileInfoName fs fi)) (allocate (fileInfoName fs fi) d))"
  by (simp add: OpenFile_def os_IsNotExist_def os_OpenFile_def Let_def)

lemma OpenFile_cases [consumes 1, case_names cached missing denied existing create]:
  assumes "OpenFile fs fi c d = (r, fs', d')"
  obtains
    (cached) h where "handles fs (fileInfoName fs fi) = Some h" "r = Inr h" "fs' = fs" "d' = d"
  | (missing) "handles fs (fileInfoName fs fi) = None" "names d (fileInfoName fs fi) = None"
      "\<not> c" "r = Inl EOF" "fs' = fs" "d' = d"
  | (denied) "handles fs (fileInfoName fs fi) = None" "fileInfoName fs fi \<in> deny_open d"
      "r = Inl IOError" "fs' = fs" "d' = d"
  | (existing) i where "handles fs (fileInfoName fs fi) = None"
      "names d (fileInfoName fs fi) = Some i" "fileInfoName fs fi \<notin> deny_open d"
      "r = Inr \<lparr>ino = i, appendMode = True, path = fileInfoName fs fi\<rparr>"
      "fs' = fs\<lparr>handles := (handles fs)(fileInfoName fs fi \<mapsto> \<lparr>ino = i, appendMode = True, path = fileInfoName fs fi\<rparr>)\<rparr>"
      "d' = emit (SysOpen (fileInfoName fs fi)) d"
  | (create) "handles fs (fileInfoName fs fi) = None"
      "names d (fileInfoName fs fi) = None" "fileInfoName fs fi \<notin> deny_open d" "c"
      "r = Inr \<lparr>ino = fresh d, appendMode = True, path = fileInfoName fs fi\<rparr>"
      "fs' = fs\<lparr>handles := (handles fs)(fileInfoName fs fi \<mapsto> \<lparr>ino = fresh d, appendMode = True, path = fileInfoName fs fi\<rparr>)\<rparr>"
      "d' = emit (SysOpen (fileInfoName fs fi)) (allocate (fileInfoName fs fi) d)"
proof (cases "handles fs (fileInfoName fs fi)")
  case (Some h)
  from assms OpenFile_cached[OF Some, of c d] have "r = Inr h \<and> fs' = fs \<and> d' = d" by simp
  with Some show ?thesis using that(1) by blast
next
  case None
  show ?thesis
  proof (cases "names d (fileInfoName fs fi)")
    case nn: None
    show ?thesis
    proof (cases c)
      case False
      with assms OpenFile_missing[OF None nn] have "r = Inl EOF \<and> fs' = fs \<and> d' = d" by simp
      with None nn False show ?thesis using that(2) by blast
    next
      case True
      show ?thesis
      proof (cases "fileInfoName fs fi \<in> deny_open d")
        case dn: True
        with assms OpenFile_denied[OF None dn, of c] True
        have "r = Inl IOError \<and> fs' = fs \<and> d' = d" by simp
        with None dn show ?thesis using that(3) by blast
      next
        case dn: False
        from assms OpenFile_create[OF None nn dn] True
        have "r = Inr \<lparr>ino = fresh d, appendMode = True, path = fileInfoName fs fi\<rparr>
          \<and> fs' = fs\<lparr>handles := (handles fs)(fileInfoName fs fi \<mapsto> \<lparr>ino = fresh d, appendMode = True, path = fileInfoName fs fi\<rparr>)\<rparr>
          \<and> d' = emit (SysOpen (fileInfoName fs fi)) (allocate (fileInfoName fs fi) d)"
          by simp
        with None nn dn True show ?thesis using that(5) by blast
      qed
    qed
  next
    case (Some i)
    show ?thesis
    proof (cases "fileInfoName fs fi \<in> deny_open d")
      case dn: True
      with assms OpenFile_denied[OF None dn, of c] Some
      have "r = Inl IOError \<and> fs' = fs \<and> d' = d" by simp
      with None dn show ?thesis using that(3) by blast
    next
      case dn: False
      from assms OpenFile_existing[OF None Some dn, of c]
      have "r = Inr \<lparr>ino = i, appendMode = True, path = fileInfoName fs fi\<rparr>
        \<and> fs' = fs\<lparr>handles := (handles fs)(fileInfoName fs fi \<mapsto> \<lparr>ino = i, appendMode = True, path = fileInfoName fs fi\<rparr>)\<rparr>
        \<and> d' = emit (SysOpen (fileInfoName fs fi)) d"
        by simp
      with None Some dn show ?thesis using that(4) by blast
    qed
  qed
qed

lemma fileInfoName_handles [simp]: "fileInfoName (fs\<lparr>handles := m\<rparr>) fi = fileInfoName fs fi"
  by (simp add: fileInfoName_def)

lemma fileInfoName_completion [simp]: "fileInfoName (fs\<lparr>completion := m\<rparr>) fi = fileInfoName fs fi"
  by (simp add: fileInfoName_def)

lemma OpenFile_frame:
  assumes "OpenFile fs fi c d = (r, fs', d')"
  shows "dir fs' = dir fs" "info fs' = info fs" "infoHash fs' = infoHash fs"
    "completion fs' = completion fs" "deny_open d' = deny_open d" "deny_io d' = deny_io d"
    "fileInfoName fs' = fileInfoName fs"
  using assms by (cases rule: OpenFile_cases; simp add: fun_eq_iff)+

subsection \<open>Zero-length file materialization\<close>

lemma created_trace [simp]: "created (d\<lparr>trace := t\<rparr>) p = created d p"
  by (simp add: created_def split: option.splits)

lemma os_Create_denied: "name \<in> deny_open d \<Longrightarrow> os_Create d name = (Inl IOError, d)"
  by (simp add: os_Create_def)

lemma os_Create_ok:
  assumes "name \<notin> deny_open d" and "os_Create d name = (r, d')"
  shows "\<exists>i. r = Inr i" and "trace d' = trace d @ [SysCreate name]"
    and "deny_open d' = deny_open d" and "created d' name"
    and "created d q \<Longrightarrow> created d' q"
  using assms
  by (auto simp: os_Create_def emit_def allocate_def created_def split: option.splits if_splits)

lemma os_Create_again:
  assumes "name \<notin> deny_open d" and "created d name"
  shows "\<exists>i. os_Create d name = (Inr i, d\<lparr>trace := trace d @ [SysCreate name]\<rparr>)"
proof -
  from assms(2) obtain i where i: "names d name = Some i" "contents d i = []"
    by (auto simp: created_def split: option.splits)
  have "(contents d)(i := []) = contents d" using i(2) by auto
  with assms(1) i show ?thesis
    by (auto simp: os_Create_def emit_def)
qed

lemma materialize_loop:
  assumes "CreateNativeZeroLengthFiles_loop dr nm fis d = (err, d')"
  shows "trace d' = trace d @ map SysCreate (takeWhile (\<lambda>p. p \<notin> deny_open d) (zero_names dr nm fis))
       \<and> err = (if \<forall>p \<in> set (zero_names dr nm fis). p \<notin> deny_open d then None else Some IOError)
       \<and> deny_open d' = deny_open d
       \<and> (\<forall>p \<in> set (takeWhile (\<lambda>p. p \<notin> deny_open d) (zero_names dr nm fis)). created d' p)
       \<and> (\<forall>q. created d q \<longrightarrow> created d' q)"
  using assms
proof (induction fis arbitrary: d)
  case Nil
  then show ?case by (simp add: zero_names_def)
next
  case (Cons fi fis)
  show ?case
  proof (cases "Length fi = 0")
    case False
    with Cons.prems have "CreateNativeZeroLengthFiles_loop dr nm fis d = (err, d')" by simp
    from Cons.IH[OF this] False show ?thesis by (simp add: zero_names_def)
  next
    case True
    define name where "name = filepath_Join (dr # nm # Path fi)"
    have zn: "zero_names dr nm (fi # fis) = name # zero_names dr nm fis"
      using True by (simp add: zero_names_def name_def)
    show ?thesis
    proof (cases "name \<in> deny_open d")
      case True
      with Cons.prems \<open>Length fi = 0\<close> show ?thesis
        by (simp add: zn os_Create_denied flip: name_def)
    next
      case False
      obtain r d1 where c: "os_Create d name = (r, d1)" by (cases "os_Create d name")
      note ok = os_Create_ok[OF False c]
      from ok(1) obtain i where r: "r = Inr i" by blast
      from Cons.prems \<open>Length fi = 0\<close> c r
      have rest: "CreateNativeZeroLengthFiles_loop dr nm fis d1 = (err, d')"
        by (simp flip: name_def)
      note ih = Cons.IH[OF rest]
      from ih ok False show ?thesis
        by (simp add: zn)
    qed
  qed
qed

lemma materialize_loop_again:
  assumes "\<forall>p \<in> set (zero_names dr nm fis). p \<notin> deny_open d \<and> created d p"
  shows "CreateNativeZeroLengthFiles_loop dr nm fis d =
           (None, d\<lparr>trace := trace d @ map SysCreate (zero_names dr nm fis)\<rparr>)"
  using assms
proof (induction fis arbitrary: d)
  case Nil
  then show ?case by (simp add: zero_names_def)
next
  case (Cons fi fis)
  show ?case
  proof (cases "Length fi = 0")
    case False
    with Cons show ?thesis by (simp add: zero_names_def)
  next
    case True
    define name where "name = filepath_Join (dr # nm # Path fi)"
    have zn: "zero_names dr nm (fi # fis) = name # zero_names dr nm fis"
      using True by (simp add: zero_names_def name_def)
    from Cons.prems zn have a: "name \<notin> deny_open d" "created d name" by auto
    from os_Create_again[OF a] obtain i where
      c: "os_Create d name = (Inr i, d\<lparr>trace := trace d @ [SysCreate name]\<rparr>)" by blast
    have "\<forall>p \<in> set (zero_names dr nm fis).
            p \<notin> deny_open (d\<lparr>trace := trace d @ [SysCreate name]\<rparr>)
          \<and> created (d\<lparr>trace := trace d @ [SysCreate name]\<rparr>) p"
      using Cons.prems zn by simp
    from Cons.IH[OF this] True c show ?thesis
      by (simp add: zn flip: name_def)
  qed
qed

text \<open>
  C9. The materializer walks the file entries in order and creates a file only for the
  entries of length 0 (the trace gains one creation per such entry, in order). At the first
  entry whose creation fails it stops with that error, so \<open>OpenTorrent\<close> fails, and the
  files created before it stay on disk, empty. When every creation succeeds it returns no
  error, and running it again succeeds and leaves names, contents and inode counter as
  they are.
\<close>

theorem materialize_error_policy:
  "CreateNativeZeroLengthFiles i dr d = (err, d') \<Longrightarrow>
     trace d' = trace d @ map SysCreate
        (takeWhile (\<lambda>p. p \<notin> deny_open d) (zero_names dr (Name i) (UpvertedFiles i)))
   \<and> err = (if \<forall>p \<in> set (zero_names dr (Name i) (UpvertedFiles i)). p \<notin> deny_open d
             then None else Some IOError)
   \<and> (\<forall>p \<in> set (takeWhile (\<lambda>p. p \<notin> deny_open d) (zero_names dr (Name i) (UpvertedFiles i))).
         created d' p)
   \<and> (pathMaker cl (baseDir cl) i ih = dr \<longrightarrow>
         OpenTorrent cl i ih d =
           (case err of
              None \<Rightarrow> Inr \<lparr>dir = dr, info = i, infoHash = ih, completion = pc cl,
                           handles = Map.empty\<rparr>
            | Some e \<Rightarrow> Inl e, d'))
   \<and> (err = None \<longrightarrow>
         (\<exists>d''. CreateNativeZeroLengthFiles i dr d' = (None, d'')
               \<and> names d'' = names d' \<and> contents d'' = contents d' \<and> fresh d'' = fresh d'))"
proof -
  assume run: "CreateNativeZeroLengthFiles i dr d = (err, d')"
  let ?zs = "zero_names dr (Name i) (UpvertedFiles i)"
  from run have loop: "CreateNativeZeroLengthFiles_loop dr (Name i) (UpvertedFiles i) d = (err, d')"
    by (simp add: CreateNativeZeroLengthFiles_def)
  note m = materialize_loop[OF loop]
  have open_t: "pathMaker cl (baseDir cl) i ih = dr \<longrightarrow>
         OpenTorrent cl i ih d =
           (case err of
              None \<Rightarrow> Inr \<lparr>dir = dr, info = i, infoHash = ih, completion = pc cl,
                           handles = Map.empty\<rparr>
            | Some e \<Rightarrow> Inl e, d')"
    using run by (auto simp: OpenTorrent_def split: option.splits)
  have again: "\<exists>d''. CreateNativeZeroLengthFiles i dr d' = (None, d'')
               \<and> names d'' = names d' \<and> contents d'' = contents d' \<and> fresh d'' = fresh d'"
    if "err = None"
  proof -
    from that m have all: "\<forall>p \<in> set ?zs. p \<notin> deny_open d"
      by (auto split: if_splits)
    then have "takeWhile (\<lambda>p. p \<notin> deny_open d) ?zs = ?zs"
      by (simp add: takeWhile_eq_all_conv)
    with m all have "\<forall>p \<in> set ?zs. p \<notin> deny_open d' \<and> created d' p"
      by simp
    from materialize_loop_again[OF this] show ?thesis
      by (simp add: CreateNativeZeroLengthFiles_def)
  qed
  from m open_t again show ?thesis by blast
qed

theorem materialize_error_policy_witness:
  "fst (CreateNativeZeroLengthFiles ex_zero_info ''d'' (ex_disk\<lparr>deny_open := {''d/t/z2''}\<rparr>))
     = Some IOError
   \<and> trace (snd (CreateNativeZeroLengthFiles ex_zero_info ''d'' (ex_disk\<lparr>deny_open := {''d/t/z2''}\<rparr>)))
     = [SysCreate ''d/t/z1'']
   \<and> created (snd (CreateNativeZeroLengthFiles ex_zero_info ''d'' (ex_disk\<lparr>deny_open := {''d/t/z2''}\<rparr>)))
       ''d/t/z1''"
proof -
  let ?r = "CreateNativeZeroLengthFiles ex_zero_info ''d'' (ex_disk\<lparr>deny_open := {''d/t/z2''}\<rparr>)"
  have h: "?r = (fst ?r, snd ?r)" by simp
  have z: "zero_names ''d'' (Name ex_zero_info) (UpvertedFiles ex_zero_info)
             = [''d/t/z1'', ''d/t/z2'', ''d/t/z3'']"
    by (simp add: zero_names_def ex_zero_info_def filepath_Join_def)
  from materialize_error_policy[OF h] show ?thesis
    by (simp add: z ex_disk_def)
qed

subsection \<open>The loops of the extent translator, step by step\<close>

declare readFileAt_loop.simps [simp del]
declare ReadAt_loop.simps [simp del]

lemma readFileAt_loop_stop:
  "\<not> (off < Length fi \<and> want \<noteq> 0) \<Longrightarrow> readFileAt_loop h fi want off acc d = ((acc, None), d)"
  by (subst readFileAt_loop.simps) (simp only: if_not_P if_False)

lemma readFileAt_loop_step:
  "off < Length fi \<Longrightarrow> want \<noteq> 0 \<Longrightarrow>
   readFileAt_loop h fi want off acc d =
     (let bs = fst (fst (file_ReadAt d h want off)); e = snd (fst (file_ReadAt d h want off));
          d' = emit (SysReadAt (path h) off want) d
      in if bs = [] then ((acc, e), d')
         else readFileAt_loop h fi (want - length bs) (off + length bs) (acc @ bs) d')"
  by (subst readFileAt_loop.simps)
     (simp add: Let_def split: prod.splits flip: file_ReadAt_state)

lemma readFileAt_loop_clamped:
  assumes "off + want \<le> Length fi"
  shows "readFileAt_loop h fi want off acc d =
     (if want = 0 then ((acc, None), d)
      else if path h \<in> deny_io d
        then ((acc, Some IOError), emit (SysReadAt (path h) off want) d)
      else let bs = take want (drop off (contents d (ino h))) in
        if bs = [] then ((acc, Some EOF), emit (SysReadAt (path h) off want) d)
        else if length bs = want then ((acc @ bs, None), emit (SysReadAt (path h) off want) d)
        else ((acc @ bs, Some EOF),
              emit (SysReadAt (path h) (off + length bs) (want - length bs))
                (emit (SysReadAt (path h) off want) d)))"
proof (cases "want = 0")
  case True
  then show ?thesis by (simp add: readFileAt_loop_stop)
next
  case False
  with assms have lt: "off < Length fi" by simp
  show ?thesis
  proof (cases "path h \<in> deny_io d")
    case True
    with False lt show ?thesis
      by (simp add: readFileAt_loop_step file_ReadAt_denied)
  next
    case ok: False
    define bs where "bs = take want (drop off (contents d (ino h)))"
    define d1 where "d1 = emit (SysReadAt (path h) off want) d"
    have ok1: "path h \<notin> deny_io d1" using ok by (simp add: d1_def)
    have c1: "contents d1 = contents d" by (simp add: d1_def)
    have first: "readFileAt_loop h fi want off acc d =
        (if bs = [] then ((acc, Some EOF), d1)
         else readFileAt_loop h fi (want - length bs) (off + length bs) (acc @ bs) d1)"
      using False lt ok
      by (auto simp: readFileAt_loop_step file_ReadAt_ok Let_def bs_def d1_def)
    show ?thesis
    proof (cases "bs = []")
      case True
      with first False ok show ?thesis by (simp add: bs_def d1_def Let_def)
    next
      case ne: False
      show ?thesis
      proof (cases "length bs = want")
        case True
        with first ne False ok show ?thesis
          by (simp add: readFileAt_loop_stop Let_def flip: bs_def d1_def)
      next
        case short: False
        have len: "length bs < want" using short by (simp add: bs_def)
        then have avail: "length (drop off (contents d (ino h))) = length bs"
          by (simp add: bs_def min_def split: if_splits)
        have nxt: "take (want - length bs) (drop (off + length bs) (contents d1 (ino h))) = []"
          using avail by (simp add: c1)
        have lt2: "off + length bs < Length fi" using len assms by simp
        have "readFileAt_loop h fi (want - length bs) (off + length bs) (acc @ bs) d1 =
                ((acc @ bs, Some EOF), emit (SysReadAt (path h) (off + length bs) (want - length bs)) d1)"
          using lt2 len ok1 nxt
          by (simp add: readFileAt_loop_step file_ReadAt_ok Let_def)
        with first ne short False ok show ?thesis
          by (simp add: Let_def flip: bs_def d1_def)
      qed
    qed
  qed
qed

lemma readFileAt_eq:
  "off \<le> Length fi \<Longrightarrow>
   readFileAt fs fi want off d =
     (case OpenFile fs fi False d of
        (Inl e, fs1, d1) \<Rightarrow> (([], Some e), fs1, d1)
      | (Inr h, fs1, d1) \<Rightarrow>
          (fst (readFileAt_loop h fi (min want (Length fi - off)) off [] d1), fs1,
           snd (readFileAt_loop h fi (min want (Length fi - off)) off [] d1)))"
  by (auto simp: readFileAt_def min_def Let_def split: prod.splits sum.splits)

lemma ReadAt_loop_skip:
  "\<not> off < Length fi \<Longrightarrow>
   ReadAt_loop fs (fi # fis) want off acc d = ReadAt_loop fs fis want (off - Length fi) acc d"
  by (subst ReadAt_loop.simps) (simp only: if_not_P if_False)

lemma ReadAt_loop_read:
  "off < Length fi \<Longrightarrow> readFileAt fs fi want off d = ((bs, e), fs1, d1) \<Longrightarrow>
   ReadAt_loop fs (fi # fis) want off acc d =
     (if want - length bs = 0 then ((acc @ bs, None), fs1, d1)
      else if bs \<noteq> [] then
        ReadAt_loop fs1 (fi # fis) (want - length bs) (off + length bs) (acc @ bs) d1
      else ((acc @ bs, if e = Some EOF then Some ErrUnexpectedEOF else e), fs1, d1))"
  by (subst ReadAt_loop.simps) simp

lemma ReadAt_loop_induct [case_names Nil skip read]:
  assumes "\<And>fs want off acc d. P fs [] want off acc d"
    and "\<And>fs fi fis want off acc d.
           \<not> off < Length fi \<Longrightarrow> P fs fis want (off - Length fi) acc d \<Longrightarrow>
           P fs (fi # fis) want off acc d"
    and "\<And>fs fi fis want off acc d bs e fs1 d1.
           off < Length fi \<Longrightarrow> readFileAt fs fi want off d = ((bs, e), fs1, d1) \<Longrightarrow>
           (want - length bs \<noteq> 0 \<Longrightarrow> bs \<noteq> [] \<Longrightarrow>
              P fs1 (fi # fis) (want - length bs) (off + length bs) (acc @ bs) d1) \<Longrightarrow>
           P fs (fi # fis) want off acc d"
  shows "P fs fis want off acc d"
proof (induction fs fis want off acc d rule: ReadAt_loop.induct)
  case (1 fs want off acc d)
  show ?case by (rule assms(1))
next
  case (2 fs fi fis want off acc d)
  show ?case
  proof (cases "off < Length fi")
    case False
    with 2(2) assms(2) show ?thesis by blast
  next
    case True
    obtain bs e fs1 d1 where r: "readFileAt fs fi want off d = ((bs, e), fs1, d1)"
      by (metis prod.exhaust)
    show ?thesis
    proof (rule assms(3)[OF True r])
      assume "want - length bs \<noteq> 0" "bs \<noteq> []"
      with 2(1)[OF True r[symmetric] refl refl] show
        "P fs1 (fi # fis) (want - length bs) (off + length bs) (acc @ bs) d1"
        by simp
    qed
  qed
qed

declare WriteAt_loop.simps(2) [simp del]

lemma WriteAt_loop_skip:
  "Length fi \<le> off \<Longrightarrow>
   WriteAt_loop fs (fi # fis) p off n d = WriteAt_loop fs fis p (off - Length fi) n d"
  by (simp add: WriteAt_loop.simps(2))

lemma WriteAt_loop_fail:
  "off < Length fi \<Longrightarrow> OpenFile fs fi True d = (Inl e, fs1, d1) \<Longrightarrow>
   WriteAt_loop fs (fi # fis) p off n d = ((n, Some e), fs1, d1)"
  by (simp add: WriteAt_loop.simps(2))

lemma WriteAt_loop_write:
  "off < Length fi \<Longrightarrow> OpenFile fs fi True d = (Inr h, fs1, d1) \<Longrightarrow>
   file_WriteAt d1 h (take (min (length p) (Length fi - off)) p) off = ((n1, e), d2) \<Longrightarrow>
   WriteAt_loop fs (fi # fis) p off n d =
     (case e of
        Some x \<Rightarrow> ((n, Some x), fs1, d2)
      | None \<Rightarrow> if drop n1 p = [] then ((n + n1, None), fs1, d2)
                else WriteAt_loop fs1 fis (drop n1 p) 0 (n + n1) d2)"
  by (auto simp: WriteAt_loop.simps(2) min_def split: option.splits)

subsection \<open>The handle cache\<close>

lemma cache_step_refl: "cache_step fs d fs d"
  by (simp add: cache_step_def split: option.splits)

lemma cache_step_same:
  "handles fs' = handles fs \<Longrightarrow> (\<And>q. opens d' q = opens d q) \<Longrightarrow> cache_step fs d fs' d'"
  by (simp add: cache_step_def split: option.splits)

lemma cache_step_trans:
  assumes "cache_step fs d fs1 d1" and "cache_step fs1 d1 fs2 d2"
  shows "cache_step fs d fs2 d2"
  unfolding cache_step_def
proof
  fix q
  from assms have a: "case handles fs q of
            Some h \<Rightarrow> handles fs1 q = Some h \<and> opens d1 q = opens d q
          | None \<Rightarrow> opens d1 q = opens d q + (if handles fs1 q = None then 0 else 1)"
    and b: "case handles fs1 q of
            Some h \<Rightarrow> handles fs2 q = Some h \<and> opens d2 q = opens d1 q
          | None \<Rightarrow> opens d2 q = opens d1 q + (if handles fs2 q = None then 0 else 1)"
    by (simp_all add: cache_step_def)
  show "case handles fs q of
            Some h \<Rightarrow> handles fs2 q = Some h \<and> opens d2 q = opens d q
          | None \<Rightarrow> opens d2 q = opens d q + (if handles fs2 q = None then 0 else 1)"
    using a b by (cases "handles fs q"; cases "handles fs1 q"; simp)
qed

lemma OpenFile_cache_step:
  assumes "OpenFile fs fi c d = (r, fs', d')"
  shows "cache_step fs d fs' d'"
  using assms
  by (cases rule: OpenFile_cases)
     (auto simp: cache_step_def opens_emit split: option.splits)

lemma OpenFile_again:
  assumes "OpenFile fs fi c d = (Inr h, fs', d')"
  shows "OpenFile fs' fi c2 d2 = (Inr h, fs', d2)"
proof -
  from assms have "handles fs' (fileInfoName fs' fi) = Some h"
    by (cases rule: OpenFile_cases) auto
  then show ?thesis by (rule OpenFile_cached)
qed

lemma readFileAt_loop_opens:
  "off + want \<le> Length fi \<Longrightarrow> opens (snd (readFileAt_loop h fi want off acc d)) q = opens d q"
  by (simp add: readFileAt_loop_clamped Let_def opens_emit)

lemma readFileAt_cache_step:
  assumes "off \<le> Length fi" and "readFileAt fs fi want off d = (r, fs', d')"
  shows "cache_step fs d fs' d'"
proof -
  obtain x fs1 d1 where o: "OpenFile fs fi False d = (x, fs1, d1)" by (metis prod.exhaust)
  note st = OpenFile_cache_step[OF o]
  show ?thesis
  proof (cases x)
    case (Inl e)
    with assms o st show ?thesis by (simp add: readFileAt_eq)
  next
    case (Inr h)
    with assms o have "fs' = fs1"
      and "d' = snd (readFileAt_loop h fi (min want (Length fi - off)) off [] d1)"
      by (simp_all add: readFileAt_eq)
    moreover have "off + min want (Length fi - off) \<le> Length fi" using assms(1) by simp
    ultimately have "cache_step fs1 d1 fs' d'"
      by (simp add: cache_step_same readFileAt_loop_opens)
    with st show ?thesis by (rule cache_step_trans)
  qed
qed

lemma ReadAt_loop_cache_step:
  "ReadAt_loop fs fis want off acc d = (r, fs', d') \<Longrightarrow> cache_step fs d fs' d'"
proof (induction fs fis want off acc d rule: ReadAt_loop_induct)
  case (Nil fs want off acc d)
  then show ?case by (simp add: ReadAt_loop.simps cache_step_refl)
next
  case (skip fs fi fis want off acc d)
  then show ?case by (simp add: ReadAt_loop_skip)
next
  case (read fs fi fis want off acc d bs e fs1 d1)
  have st: "cache_step fs d fs1 d1"
    using read(1,2) by (intro readFileAt_cache_step[of off fi fs want d]) simp_all
  show ?case
  proof (cases "want - length bs \<noteq> 0 \<and> bs \<noteq> []")
    case True
    with read(4) read(1,2) have "ReadAt_loop fs1 (fi # fis) (want - length bs) (off + length bs) (acc @ bs) d1 = (r, fs', d')"
      by (simp add: ReadAt_loop_read)
    with read(3) True have "cache_step fs1 d1 fs' d'" by blast
    with st show ?thesis by (rule cache_step_trans)
  next
    case False
    with read(4) read(1,2) have "fs' = fs1" "d' = d1"
      by (auto simp: ReadAt_loop_read split: if_splits)
    with st show ?thesis by simp
  qed
qed

lemma file_WriteAt_opens: "opens (snd (file_WriteAt d h b off)) q = opens d q"
  by (simp add: file_WriteAt_def Let_def opens_emit)

lemma WriteAt_loop_cache_step:
  "WriteAt_loop fs fis p off n d = (r, fs', d') \<Longrightarrow> cache_step fs d fs' d'"
proof (induction fis arbitrary: fs p off n d)
  case Nil
  then show ?case by (simp add: cache_step_refl)
next
  case (Cons fi fis)
  show ?case
  proof (cases "Length fi \<le> off")
    case True
    with Cons show ?thesis by (simp add: WriteAt_loop_skip)
  next
    case False
    then have lt: "off < Length fi" by simp
    obtain x fs1 d1 where o: "OpenFile fs fi True d = (x, fs1, d1)" by (metis prod.exhaust)
    note st = OpenFile_cache_step[OF o]
    show ?thesis
    proof (cases x)
      case (Inl e)
      with Cons.prems lt o st show ?thesis by (simp add: WriteAt_loop_fail)
    next
      case (Inr h)
      obtain n1 e d2 where w: "file_WriteAt d1 h (take (min (length p) (Length fi - off)) p) off = ((n1, e), d2)"
        by (metis prod.exhaust)
      from w file_WriteAt_opens[of d1 h "take (min (length p) (Length fi - off)) p" off]
      have "cache_step fs1 d1 fs1 d2" by (simp add: cache_step_same)
      with st have st2: "cache_step fs d fs1 d2" by (rule cache_step_trans)
      note eq = WriteAt_loop_write[OF lt o[unfolded Inr] w, of fis n]
      show ?thesis
      proof (cases "e = None \<and> drop n1 p \<noteq> []")
        case True
        with Cons.prems eq have "WriteAt_loop fs1 fis (drop n1 p) 0 (n + n1) d2 = (r, fs', d')"
          by simp
        from Cons.IH[OF this] st2 show ?thesis by (rule cache_step_trans[rotated])
      next
        case False
        with Cons.prems eq have "fs' = fs1" "d' = d2"
          by (auto split: option.splits if_splits)
        with st2 show ?thesis by simp
      qed
    qed
  qed
qed

lemma Completion_loop_cache_step:
  "Completion_loop fs req c d = (r, fs', d') \<Longrightarrow> cache_step fs d fs' d'"
proof (induction req arbitrary: fs d)
  case Nil
  then show ?case by (simp add: cache_step_refl)
next
  case (Cons fi req)
  obtain x fs1 d1 where o: "OpenFile fs fi False d = (x, fs1, d1)" by (metis prod.exhaust)
  note st = OpenFile_cache_step[OF o]
  show ?case
  proof (cases "\<exists>h s. x = Inr h \<and> file_Stat d1 h = Inr s \<and> \<not> s < Length fi")
    case True
    with Cons.prems o have "Completion_loop fs1 req c d1 = (r, fs', d')" by auto
    from Cons.IH[OF this] st show ?thesis by (rule cache_step_trans[rotated])
  next
    case False
    with Cons.prems o have "fs' = fs1" "d' = d1"
      by (auto split: sum.splits if_splits)
    with st show ?thesis by simp
  qed
qed

lemma Completion_cache_step:
  assumes "Completion fs p req d = (r, fs', d')"
  shows "cache_step fs d fs' d'"
proof -
  have upd: "cache_step a b (a'\<lparr>completion := x\<rparr>) b'" if "cache_step a b a' b'" for a b a' b' x
    using that by (simp add: cache_step_def cong: option.case_cong)
  obtain c1 fs1 d1 where l: "Completion_loop fs req (projr (pc_Get (completion fs) (pieceKey fs p))) d = (c1, fs1, d1)"
    by (metis prod.exhaust)
  note st = Completion_loop_cache_step[OF l]
  from assms l have "(fs' = fs \<and> d' = d) \<or> (d' = d1 \<and> (fs' = fs1 \<or> (\<exists>x. fs' = fs1\<lparr>completion := x\<rparr>)))"
    by (auto simp: Completion_def split: sum.splits if_splits)
  with st upd[OF st] show ?thesis by (auto simp: cache_step_refl)
qed

text \<open>
  C8. The handle map holds at most one handle per path, and every operation keeps it so:
  \<open>OpenFile\<close>, \<open>ReadAt\<close>, \<open>WriteAt\<close> and \<open>Completion\<close> never replace a cached
  handle and never open a path that is cached; a path that was not cached is opened at most
  once, exactly when it is cached afterwards. A second \<open>OpenFile\<close> of the same entry
  returns the cached handle and changes neither the store nor the disk, so nothing is
  opened.
\<close>

theorem handle_cache_reuse:
  "(OpenFile fs fi c d = (r, fs', d') \<longrightarrow>
      cache_step fs d fs' d'
      \<and> (\<forall>h. r = Inr h \<longrightarrow> (\<forall>c2 d2. OpenFile fs' fi c2 d2 = (Inr h, fs', d2))))
   \<and> cache_step fs d (fst (snd (ReadAt fs want off d))) (snd (snd (ReadAt fs want off d)))
   \<and> cache_step fs d (fst (snd (WriteAt fs b off d))) (snd (snd (WriteAt fs b off d)))
   \<and> cache_step fs d (fst (snd (Completion fs p req d))) (snd (snd (Completion fs p req d)))"
proof (intro conjI impI allI)
  assume "OpenFile fs fi c d = (r, fs', d')"
  then show "cache_step fs d fs' d'" by (rule OpenFile_cache_step)
next
  fix h c2 d2
  assume "OpenFile fs fi c d = (r, fs', d')" "r = Inr h"
  then show "OpenFile fs' fi c2 d2 = (Inr h, fs', d2)" by (simp add: OpenFile_again)
next
  show "cache_step fs d (fst (snd (ReadAt fs want off d))) (snd (snd (ReadAt fs want off d)))"
    by (rule ReadAt_loop_cache_step[where r = "fst (ReadAt fs want off d)"])
       (simp add: ReadAt_def)
next
  show "cache_step fs d (fst (snd (WriteAt fs b off d))) (snd (snd (WriteAt fs b off d)))"
    by (rule WriteAt_loop_cache_step[where r = "fst (WriteAt fs b off d)"])
       (simp add: WriteAt_def)
next
  show "cache_step fs d (fst (snd (Completion fs p req d))) (snd (snd (Completion fs p req d)))"
    by (rule Completion_cache_step[where r = "fst (Completion fs p req d)"]) simp
qed

theorem handle_cache_reuse_witness:
  "OpenFile (fst (snd (OpenFile ex_torrent \<lparr>Path = [''a''], Length = 2\<rparr> True ex_disk)))
      \<lparr>Path = [''a''], Length = 2\<rparr> False
      (snd (snd (OpenFile ex_torrent \<lparr>Path = [''a''], Length = 2\<rparr> True ex_disk)))
    = (Inr \<lparr>ino = 0, appendMode = True, path = ''d/t/a''\<rparr>,
       snd (OpenFile ex_torrent \<lparr>Path = [''a''], Length = 2\<rparr> True ex_disk))
   \<and> opens (snd (snd (OpenFile ex_torrent \<lparr>Path = [''a''], Length = 2\<rparr> True ex_disk))) ''d/t/a'' = 1"
proof -
  let ?R = "OpenFile ex_torrent \<lparr>Path = [''a''], Length = 2\<rparr> True ex_disk"
  have h: "?R = (Inr \<lparr>ino = 0, appendMode = True, path = ''d/t/a''\<rparr>, fst (snd ?R), snd (snd ?R))"
    by (simp add: OpenFile_def fileInfoName_def filepath_Join_def ex_torrent_def ex_info_def
        ex_disk_def os_IsNotExist_def os_OpenFile_def Let_def)
  have o: "opens ex_disk ''d/t/a'' = 0" "handles ex_torrent ''d/t/a'' = None"
    "handles (fst (snd ?R)) ''d/t/a'' \<noteq> None"
    by (simp_all add: opens_def ex_disk_def ex_torrent_def OpenFile_def fileInfoName_def
        filepath_Join_def ex_info_def os_IsNotExist_def os_OpenFile_def Let_def)
  from handle_cache_reuse[of ex_torrent "\<lparr>Path = [''a''], Length = 2\<rparr>" True ex_disk
      "Inr \<lparr>ino = 0, appendMode = True, path = ''d/t/a''\<rparr>" "fst (snd ?R)" "snd (snd ?R)"] h
  have a: "cache_step ex_torrent ex_disk (fst (snd ?R)) (snd (snd ?R))"
    and b: "OpenFile (fst (snd ?R)) \<lparr>Path = [''a''], Length = 2\<rparr> False (snd (snd ?R))
             = (Inr \<lparr>ino = 0, appendMode = True, path = ''d/t/a''\<rparr>, fst (snd ?R), snd (snd ?R))"
    by blast+
  from a o have "opens (snd (snd ?R)) ''d/t/a'' = 1"
    by (auto simp: cache_step_def split: option.splits dest!: spec[of _ "''d/t/a''"])
  with b show ?thesis by simp
qed

subsection \<open>Traces, the cache invariant and the total length\<close>

lemma since_append: "trace d' = trace d @ evs \<Longrightarrow> since d d' = evs"
  by (simp add: since_def)

lemma OpenFile_trace:
  assumes "OpenFile fs fi c d = (r, fs', d')"
  shows "\<exists>evs. trace d' = trace d @ evs \<and> filter is_write evs = [] \<and> filter is_read evs = []"
  using assms by (cases rule: OpenFile_cases) auto

lemma OpenFile_cache_ok:
  assumes "cache_ok fs" and "OpenFile fs fi c d = (r, fs', d')"
  shows "cache_ok fs'" and "r = Inr h \<Longrightarrow> path h = fileInfoName fs fi"
proof -
  from assms(2) assms(1) show "cache_ok fs'"
    by (cases rule: OpenFile_cases) (auto simp: cache_ok_def)
  assume "r = Inr h"
  with assms(2) assms(1) show "path h = fileInfoName fs fi"
    by (cases rule: OpenFile_cases)
       (auto simp: cache_ok_def split: option.splits dest!: spec[of _ "fileInfoName fs fi"])
qed

lemma OpenFile_healthy:
  assumes "healthy d" and "OpenFile fs fi True d = (r, fs', d')"
  shows "healthy d'" and "\<exists>h. r = Inr h"
  using assms(2) assms(1) by (cases rule: OpenFile_cases; simp add: healthy_def)+

lemma total_Cons [simp]: "total_length (fi # fis) = Length fi + total_length fis"
  by (simp add: total_length_def)

lemma total_Nil [simp]: "total_length [] = 0"
  by (simp add: total_length_def)

lemma total_append [simp]: "total_length (xs @ ys) = total_length xs + total_length ys"
  by (simp add: total_length_def)

lemma WriteAt_loop_past:
  "total_length fis \<le> off \<Longrightarrow> WriteAt_loop fs fis p off n d = ((n, None), fs, d)"
  by (induction fis arbitrary: off) (simp_all add: WriteAt_loop_skip)

lemma ex_healthy: "healthy ex_disk"
  by (simp add: healthy_def ex_disk_def)

lemma ex_cache_ok: "cache_ok ex_torrent"
  by (simp add: cache_ok_def ex_torrent_def)


subsection \<open>Writes through handles in append mode\<close>

lemma OpenFile_append:
  assumes "append_cache fs" and "OpenFile fs fi c d = (r, fs', d')"
  shows "append_cache fs'" and "r = Inr h \<Longrightarrow> appendMode h"
proof -
  from assms(2) assms(1) show "append_cache fs'"
    by (cases rule: OpenFile_cases) (auto simp: append_cache_def)
  assume "r = Inr h"
  with assms(2) assms(1) show "appendMode h"
    by (cases rule: OpenFile_cases)
       (auto simp: append_cache_def split: option.splits dest!: spec[of _ "fileInfoName fs fi"])
qed

lemma OpenTorrent_append:
  "OpenTorrent cl i ih d = (Inr fs, d') \<Longrightarrow> append_cache fs \<and> cache_ok fs"
  by (auto simp: OpenTorrent_def append_cache_def cache_ok_def Let_def
      split: prod.splits option.splits)

lemma WriteAt_loop_append:
  assumes "append_cache fs" and "off < total_length fis"
    and "WriteAt_loop fs fis p off n d = (r, fs', d')"
  shows "r = (n, Some ErrWriteAtInAppendMode) \<or> r = (n, Some IOError)"
  using assms
proof (induction fis arbitrary: off)
  case Nil
  then show ?case by simp
next
  case (Cons fi fis)
  show ?case
  proof (cases "Length fi \<le> off")
    case True
    with Cons.prems have "WriteAt_loop fs fis p (off - Length fi) n d = (r, fs', d')"
      and "off - Length fi < total_length fis"
      by (simp_all add: WriteAt_loop_skip)
    with Cons.IH Cons.prems(1) show ?thesis by blast
  next
    case False
    then have lt: "off < Length fi" by simp
    obtain x fs1 d1 where o: "OpenFile fs fi True d = (x, fs1, d1)" by (metis prod.exhaust)
    show ?thesis
    proof (cases x)
      case (Inl e)
      from o Inl have "e = IOError" by (cases rule: OpenFile_cases) auto
      with Cons.prems(3) lt o Inl show ?thesis by (simp add: WriteAt_loop_fail)
    next
      case (Inr h)
      from OpenFile_append(2)[OF Cons.prems(1) o Inr] have a: "appendMode h" .
      from WriteAt_loop_write[OF lt o[unfolded Inr] file_WriteAt_append[OF a],
          where fis = fis and n = n] Cons.prems(3)
      show ?thesis by simp
    qed
  qed
qed

lemma WriteAt_append_fails:
  assumes "append_cache fs" and "off < TotalLength (info fs)"
  shows "fst (WriteAt fs p off d) = (0, Some ErrWriteAtInAppendMode)
       \<or> fst (WriteAt fs p off d) = (0, Some IOError)"
proof -
  have "WriteAt_loop fs (UpvertedFiles (info fs)) p off 0 d
          = (fst (WriteAt fs p off d), fst (snd (WriteAt fs p off d)), snd (snd (WriteAt fs p off d)))"
    by (simp add: WriteAt_def)
  from WriteAt_loop_append[OF assms(1) _ this] assms(2) show ?thesis
    by (simp add: TotalLength_def)
qed

text \<open>
  So a write that reaches a file entry never succeeds on a store whose handles come from
  \<open>OpenFile\<close>: the file is opened with \<open>O_APPEND\<close> (created if need be), and the
  positional write on it is refused. The three evaluations below show it on the example
  torrent (files \<open>a\<close> of length 2 and \<open>b\<close> of length 3) and an empty disk.
\<close>

text \<open>
  C7. The write of three bytes at offset 1 should put one byte at the tail of \<open>a\<close> and two
  bytes at the start of \<open>b\<close>. It returns 0 and the append-mode error after the first
  attempt: \<open>a\<close> is created and stays empty, \<open>b\<close> is never opened.
\<close>

theorem WriteAt_boundary_write_fails:
  "fst (WriteAt ex_torrent [1, 2, 3] 1 ex_disk) = (0, Some ErrWriteAtInAppendMode)
   \<and> since ex_disk (snd (snd (WriteAt ex_torrent [1, 2, 3] 1 ex_disk)))
       = [SysOpen ''d/t/a'', SysWriteAt ''d/t/a'' 1 [1]]
   \<and> names (snd (snd (WriteAt ex_torrent [1, 2, 3] 1 ex_disk))) ''d/t/a'' = Some 0
   \<and> contents (snd (snd (WriteAt ex_torrent [1, 2, 3] 1 ex_disk))) 0 = []
   \<and> names (snd (snd (WriteAt ex_torrent [1, 2, 3] 1 ex_disk))) ''d/t/b'' = None"
  by code_simp

text \<open>
  C10. The write of seven bytes at offset 1 reaches past the total length 5 and should be cut
  to four bytes with no error. It returns 0 and the append-mode error, and no byte reaches a
  file. Only a write that starts at or past the total length behaves as described: it
  returns \<open>(0, nil)\<close>.
\<close>

theorem WriteAt_past_end_fails:
  "fst (WriteAt ex_torrent [1, 2, 3, 4, 5, 6, 7] 1 ex_disk) = (0, Some ErrWriteAtInAppendMode)
   \<and> contents (snd (snd (WriteAt ex_torrent [1, 2, 3, 4, 5, 6, 7] 1 ex_disk))) 0 = []
   \<and> names (snd (snd (WriteAt ex_torrent [1, 2, 3, 4, 5, 6, 7] 1 ex_disk))) ''d/t/b'' = None
   \<and> fst (WriteAt ex_torrent [1, 2, 3] 5 ex_disk) = (0, None)"
  by code_simp

text \<open>
  C1. Writing the four bytes of the first piece through the writer of the piece view returns
  0 and the append-mode error; reading the piece back through its reader then delivers no
  byte and the unexpected end of data, not the bytes written.
\<close>

theorem piece_round_trip_fails:
  "fst (piece_WriteAt ex_torrent ex_piece [1, 2, 3, 4] 0 ex_disk)
     = (0, Some ErrWriteAtInAppendMode)
   \<and> fst (piece_ReadAt (fst (snd (piece_WriteAt ex_torrent ex_piece [1, 2, 3, 4] 0 ex_disk)))
            ex_piece 4 0 (snd (snd (piece_WriteAt ex_torrent ex_piece [1, 2, 3, 4] 0 ex_disk))))
     = ([], Some ErrUnexpectedEOF)"
  by code_simp

subsection \<open>Clamping of the file-local reads and writes\<close>

lemma clamped_mono:
  "clamped fs fis ev \<Longrightarrow> set fis \<subseteq> set fis' \<Longrightarrow> clamped fs fis' ev"
  by (cases ev) (auto simp: list_ex_iff)

lemma clamped_Cons: "clamped fs fis ev \<Longrightarrow> clamped fs (fi # fis) ev"
  by (rule clamped_mono) auto

lemma clamped_single: "clamped fs [fi] ev \<Longrightarrow> clamped fs (fi # fis) ev"
  by (rule clamped_mono) auto

lemma clamped_cong:
  "fileInfoName fs' = fileInfoName fs \<Longrightarrow> clamped fs' fis ev = clamped fs fis ev"
  by (cases ev) (simp_all add: list_ex_iff)

lemma readFileAt_loop_clamped_trace:
  assumes "off + want \<le> Length fi" and "path h = fileInfoName fs fi"
  shows "\<exists>evs. trace (snd (readFileAt_loop h fi want off acc d)) = trace d @ evs
             \<and> (\<forall>ev \<in> set evs. clamped fs [fi] ev)"
  using assms
  by (auto simp: readFileAt_loop_clamped Let_def min_def)

lemma readFileAt_clamped:
  assumes "off \<le> Length fi" and "cache_ok fs" and "readFileAt fs fi want off d = (r, fs', d')"
  shows "cache_ok fs' \<and> fileInfoName fs' = fileInfoName fs
       \<and> (\<exists>evs. trace d' = trace d @ evs \<and> (\<forall>ev \<in> set evs. clamped fs [fi] ev))"
proof -
  obtain x fs1 d1 where o: "OpenFile fs fi False d = (x, fs1, d1)" by (metis prod.exhaust)
  note ck = OpenFile_cache_ok[OF assms(2) o]
  have nm: "fileInfoName fs1 = fileInfoName fs" using o by (rule OpenFile_frame)
  from o have t1: "\<exists>evs. trace d1 = trace d @ evs \<and> (\<forall>ev \<in> set evs. clamped fs [fi] ev)"
    by (cases rule: OpenFile_cases) auto
  show ?thesis
  proof (cases x)
    case (Inl e)
    with assms o ck nm t1 show ?thesis by (simp add: readFileAt_eq)
  next
    case (Inr h)
    with assms o have eq: "fs' = fs1"
      "d' = snd (readFileAt_loop h fi (min want (Length fi - off)) off [] d1)"
      by (simp_all add: readFileAt_eq)
    have "off + min want (Length fi - off) \<le> Length fi" using assms(1) by simp
    from readFileAt_loop_clamped_trace[OF this ck(2)[OF Inr], of "[]" d1] eq(2)
    obtain ev2 where t2: "trace d' = trace d1 @ ev2" "\<forall>ev \<in> set ev2. clamped fs [fi] ev"
      by blast
    from t1 obtain ev1 where t1': "trace d1 = trace d @ ev1" "\<forall>ev \<in> set ev1. clamped fs [fi] ev"
      by blast
    from t1' t2 have "trace d' = trace d @ (ev1 @ ev2)" "\<forall>ev \<in> set (ev1 @ ev2). clamped fs [fi] ev"
      by auto
    with eq(1) ck(1) nm show ?thesis by blast
  qed
qed

lemma ReadAt_loop_clamped:
  "cache_ok fs \<Longrightarrow> ReadAt_loop fs fis want off acc d = (r, fs', d') \<Longrightarrow>
     cache_ok fs' \<and> fileInfoName fs' = fileInfoName fs
   \<and> (\<exists>evs. trace d' = trace d @ evs \<and> (\<forall>ev \<in> set evs. clamped fs fis ev))"
proof (induction fs fis want off acc d rule: ReadAt_loop_induct)
  case (Nil fs want off acc d)
  then show ?case by (simp add: ReadAt_loop.simps)
next
  case (skip fs fi fis want off acc d)
  from skip(4) skip(1) have "ReadAt_loop fs fis want (off - Length fi) acc d = (r, fs', d')"
    by (simp add: ReadAt_loop_skip)
  from skip(2)[OF skip(3) this] show ?case
    by (auto intro: clamped_Cons)
next
  case (read fs fi fis want off acc d bs e fs1 d1)
  from read(1) have le: "off \<le> Length fi" by simp
  from readFileAt_clamped[OF le read(4) read(2)] obtain ev1 where
    c1: "cache_ok fs1" and nm: "fileInfoName fs1 = fileInfoName fs"
    and t1: "trace d1 = trace d @ ev1" and cl1: "\<forall>ev \<in> set ev1. clamped fs (fi # fis) ev"
    by (auto intro: clamped_single)
  show ?case
  proof (cases "want - length bs \<noteq> 0 \<and> bs \<noteq> []")
    case True
    with read(5) read(1,2)
    have "ReadAt_loop fs1 (fi # fis) (want - length bs) (off + length bs) (acc @ bs) d1 = (r, fs', d')"
      by (simp add: ReadAt_loop_read)
    with read(3) True c1 obtain ev2 where
      "cache_ok fs'" "fileInfoName fs' = fileInfoName fs1" "trace d' = trace d1 @ ev2"
      "\<forall>ev \<in> set ev2. clamped fs1 (fi # fis) ev"
      by blast
    with nm t1 cl1 have "cache_ok fs'" "fileInfoName fs' = fileInfoName fs"
      "trace d' = trace d @ (ev1 @ ev2)" "\<forall>ev \<in> set (ev1 @ ev2). clamped fs (fi # fis) ev"
      by (auto simp: clamped_cong[OF nm])
    then show ?thesis by blast
  next
    case False
    with read(5) read(1,2) have "fs' = fs1" "d' = d1"
      by (auto simp: ReadAt_loop_read split: if_splits)
    with c1 nm t1 cl1 show ?thesis by blast
  qed
qed

lemma WriteAt_loop_clamped:
  "cache_ok fs \<Longrightarrow> WriteAt_loop fs fis p off n d = (r, fs', d') \<Longrightarrow>
     cache_ok fs' \<and> fileInfoName fs' = fileInfoName fs
   \<and> (\<exists>evs. trace d' = trace d @ evs \<and> (\<forall>ev \<in> set evs. clamped fs fis ev))"
proof (induction fis arbitrary: fs p off n d)
  case Nil
  then show ?case by simp
next
  case (Cons fi fis)
  show ?case
  proof (cases "Length fi \<le> off")
    case True
    with Cons.prems have "WriteAt_loop fs fis p (off - Length fi) n d = (r, fs', d')"
      by (simp add: WriteAt_loop_skip)
    from Cons.IH[OF Cons.prems(1) this] show ?thesis
      by (auto intro: clamped_Cons)
  next
    case False
    then have lt: "off < Length fi" by simp
    obtain x fs1 d1 where o: "OpenFile fs fi True d = (x, fs1, d1)" by (metis prod.exhaust)
    note ck = OpenFile_cache_ok[OF Cons.prems(1) o]
    have nm: "fileInfoName fs1 = fileInfoName fs" using o by (rule OpenFile_frame)
    from o have t1: "\<exists>evs. trace d1 = trace d @ evs \<and> (\<forall>ev \<in> set evs. clamped fs (fi # fis) ev)"
      by (cases rule: OpenFile_cases) auto
    show ?thesis
    proof (cases x)
      case (Inl e)
      with Cons.prems lt o have "fs' = fs1" "d' = d1" by (simp_all add: WriteAt_loop_fail)
      with ck(1) nm t1 show ?thesis by simp
    next
      case (Inr h)
      define m where "m = min (length p) (Length fi - off)"
      obtain n1 e d2 where w: "file_WriteAt d1 h (take m p) off = ((n1, e), d2)"
        by (metis prod.exhaust)
      from ck(2)[OF Inr] have ph: "path h = fileInfoName fs fi" .
      have "off + length (take m p) \<le> Length fi" using lt by (simp add: m_def)
      then have clw: "clamped fs (fi # fis) (SysWriteAt (path h) off (take m p))"
        by (simp add: ph)
      from w have t2: "trace d2 = trace d1 @ [SysWriteAt (path h) off (take m p)]"
        by (auto simp: file_WriteAt_def Let_def split: if_splits)
      from t1 obtain ev1 where
        t1': "trace d1 = trace d @ ev1" "\<forall>ev \<in> set ev1. clamped fs (fi # fis) ev"
        by blast
      define ev12 where "ev12 = ev1 @ [SysWriteAt (path h) off (take m p)]"
      from t1' t2 clw have
        t12: "trace d2 = trace d @ ev12" "\<forall>ev \<in> set ev12. clamped fs (fi # fis) ev"
        by (auto simp: ev12_def)
      note eq = WriteAt_loop_write[OF lt o[unfolded Inr] w[unfolded m_def], of fis n]
      show ?thesis
      proof (cases "e = None \<and> drop n1 p \<noteq> []")
        case True
        with Cons.prems(2) eq have "WriteAt_loop fs1 fis (drop n1 p) 0 (n + n1) d2 = (r, fs', d')"
          by simp
        from Cons.IH[OF ck(1) this] obtain ev3 where
          "cache_ok fs'" "fileInfoName fs' = fileInfoName fs1" "trace d' = trace d2 @ ev3"
          "\<forall>ev \<in> set ev3. clamped fs1 fis ev"
          by blast
        with nm t12 have "cache_ok fs'" "fileInfoName fs' = fileInfoName fs"
          "trace d' = trace d @ (ev12 @ ev3)" "\<forall>ev \<in> set (ev12 @ ev3). clamped fs (fi # fis) ev"
          by (auto simp: clamped_cong[OF nm] intro: clamped_Cons)
        then show ?thesis by blast
      next
        case False
        with Cons.prems(2) eq have "fs' = fs1" "d' = d2"
          by (auto split: option.splits if_splits)
        with ck(1) nm t12 show ?thesis by blast
      qed
    qed
  qed
qed

text \<open>
  C6. Every positional read that \<open>ReadAt\<close> issues and every positional write that
  \<open>WriteAt\<close> issues goes to the path of a file entry and stays inside \<open>[0, Length)\<close>
  of that entry: offset plus length never exceeds the declared length. This holds whether
  or not calls fail. (When two entries share a path, the bound is that of one of them.)
\<close>

theorem file_local_operations_clamped:
  "cache_ok fs \<Longrightarrow>
     (\<forall>ev \<in> set (since d (snd (snd (ReadAt fs want off d)))).
         clamped fs (UpvertedFiles (info fs)) ev)
   \<and> (\<forall>ev \<in> set (since d (snd (snd (WriteAt fs p off d)))).
         clamped fs (UpvertedFiles (info fs)) ev)"
proof -
  assume c: "cache_ok fs"
  have r: "ReadAt_loop fs (UpvertedFiles (info fs)) want off [] d
             = (fst (ReadAt fs want off d), fst (snd (ReadAt fs want off d)),
                snd (snd (ReadAt fs want off d)))"
    by (simp add: ReadAt_def)
  have w: "WriteAt_loop fs (UpvertedFiles (info fs)) p off 0 d
             = (fst (WriteAt fs p off d), fst (snd (WriteAt fs p off d)),
                snd (snd (WriteAt fs p off d)))"
    by (simp add: WriteAt_def)
  from ReadAt_loop_clamped[OF c r] WriteAt_loop_clamped[OF c w] show ?thesis
    by (auto simp: since_def)
qed

theorem file_local_operations_clamped_witness:
  "since ex_disk (snd (snd (WriteAt ex_torrent [1, 2, 3, 4, 5, 6, 7] 1 ex_disk)))
     = [SysOpen ''d/t/a'', SysWriteAt ''d/t/a'' 1 [1]]
   \<and> clamped ex_torrent (UpvertedFiles (info ex_torrent)) (SysWriteAt ''d/t/a'' 1 [1])
   \<and> since ex_disk_only_b (snd (snd (ReadAt ex_torrent 4 3 ex_disk_only_b)))
     = [SysOpen ''d/t/b'', SysReadAt ''d/t/b'' 1 2]
   \<and> clamped ex_torrent (UpvertedFiles (info ex_torrent)) (SysReadAt ''d/t/b'' 1 2)"
proof -
  have "since ex_disk (snd (snd (WriteAt ex_torrent [1, 2, 3, 4, 5, 6, 7] 1 ex_disk)))
     = [SysOpen ''d/t/a'', SysWriteAt ''d/t/a'' 1 [1]]"
    and "since ex_disk_only_b (snd (snd (ReadAt ex_torrent 4 3 ex_disk_only_b)))
     = [SysOpen ''d/t/b'', SysReadAt ''d/t/b'' 1 2]"
    by code_simp+
  with file_local_operations_clamped[OF ex_cache_ok, where d = ex_disk
      and p = "[1, 2, 3, 4, 5, 6, 7]" and off = 1]
    file_local_operations_clamped[OF ex_cache_ok, where d = ex_disk_only_b
      and want = 4 and off = 3]
  show ?thesis by simp
qed

subsection \<open>How the read walk ends\<close>







text \<open>
  C4, as stated, fails: with the first file of the example torrent absent and the second one
  present, a read of three bytes at offset 0 fails with the unexpected end of data, delivers
  nothing, and leaves store and disk as they were, so the second file is never opened or read.
\<close>

theorem missing_file_read_counterexample:
  "names ex_disk_only_b (fileInfoName ex_torrent \<lparr>Path = [''a''], Length = 2\<rparr>) = None
   \<and> ReadAt ex_torrent 3 0 ex_disk_only_b
       = (([], Some ErrUnexpectedEOF), ex_torrent, ex_disk_only_b)"
  by (simp add: ReadAt_def ReadAt_loop.simps readFileAt_def OpenFile_def fileInfoName_def
      filepath_Join_def os_IsNotExist_def ex_torrent_def ex_info_def ex_disk_only_b_def
      ex_disk_def Let_def)

text \<open>
  C4, amended. When the file of the current entry is absent on disk and not cached,
  \<open>readFileAt\<close> delivers zero bytes and reports end of data without touching store or
  disk; the walk of \<open>ReadAt\<close> then stops at that entry and returns the bytes read so
  far, with the unexpected end of data if the buffer is not yet filled (and with no error
  only if nothing more was wanted). It does not go on to the next entry.
\<close>

theorem missing_file_read_stops:
  "handles fs (fileInfoName fs fi) = None \<Longrightarrow> names d (fileInfoName fs fi) = None \<Longrightarrow>
   off < Length fi \<Longrightarrow>
     readFileAt fs fi want off d = (([], Some EOF), fs, d)
   \<and> ReadAt_loop fs (fi # fis) want off acc d =
       ((acc, if want = 0 then None else Some ErrUnexpectedEOF), fs, d)"
proof -
  assume a: "handles fs (fileInfoName fs fi) = None" "names d (fileInfoName fs fi) = None"
    and lt: "off < Length fi"
  from lt have le: "off \<le> Length fi" by simp
  have r: "readFileAt fs fi want off d = (([], Some EOF), fs, d)"
    by (simp add: readFileAt_eq[OF le] OpenFile_missing[OF a])
  from ReadAt_loop_read[OF lt r, of fis acc] r show ?thesis by simp
qed

theorem missing_file_read_stops_witness:
  "readFileAt ex_torrent \<lparr>Path = [''a''], Length = 2\<rparr> 3 0 ex_disk_only_b
     = (([], Some EOF), ex_torrent, ex_disk_only_b)
   \<and> ReadAt_loop ex_torrent [\<lparr>Path = [''a''], Length = 2\<rparr>, \<lparr>Path = [''b''], Length = 3\<rparr>] 3 0 []
       ex_disk_only_b
     = (([], Some ErrUnexpectedEOF), ex_torrent, ex_disk_only_b)"
proof -
  have a: "handles ex_torrent (fileInfoName ex_torrent \<lparr>Path = [''a''], Length = 2\<rparr>) = None"
    by (simp add: ex_torrent_def)
  have b: "names ex_disk_only_b (fileInfoName ex_torrent \<lparr>Path = [''a''], Length = 2\<rparr>) = None"
    by (simp add: fileInfoName_def filepath_Join_def ex_torrent_def ex_info_def
        ex_disk_only_b_def ex_disk_def)
  have c: "0 < Length \<lparr>Path = [''a''], Length = 2\<rparr>" by simp
  from missing_file_read_stops[OF a b c, of 3 "[\<lparr>Path = [''b''], Length = 3\<rparr>]" "[]"]
  show ?thesis by simp
qed

subsection \<open>The completion check\<close>

lemma sized_completion [simp]: "sized (fs\<lparr>completion := x\<rparr>) d fi = sized fs d fi"
  by (simp add: sized_def cong: option.case_cong)











end
